theory Spec2Isabelle
  imports Complex_Main "HOL-Library.Log_Nat"
begin

section \<open>The script model (page.tsx, lines 5-45)\<close>

text \<open>
  A story segment is the record type \<open>StorySegment\<close> of the source. The field \<open>id\<close> is
  called \<open>id_seg\<close> and the field \<open>text\<close> is called \<open>text_seg\<close> here (both names are taken
  in HOL). A JavaScript number is modelled by the real number it denotes. The three
  characters of the narrative texts outside ASCII are written as their UTF-8 bytes.
\<close>

record StorySegment =
  id_seg :: string
  label :: string
  delayMs :: real
  text_seg :: string

definition storySegments :: "StorySegment list" where
  "storySegments =
    [\<lparr>id_seg = ''sealed'', label = ''00:00'', delayMs = 0,
      text_seg = ''The elevator doors exhaled a final gasp as they sealed, swallowing the hallway's safe fluorescence behind you.''\<rparr>,
     \<lparr>id_seg = ''countdown'', label = ''00:05'', delayMs = 5000,
      text_seg = ''Floor numbers tumbled in reverse, skipping entire levels as though something hungry was chewing through the cable.''\<rparr>,
     \<lparr>id_seg = ''warning'', label = ''00:10'', delayMs = 10000,
      text_seg = ''The intercom crackled alive with a voice that sounded almost like yours: ''
        @ [CHR 0xE2, CHR 0x80, CHR 0x9C]
        @ ''Twenty seconds is all the warning you'll ever get.''
        @ [CHR 0xE2, CHR 0x80, CHR 0x9D]\<rparr>,
     \<lparr>id_seg = ''reflection'', label = ''00:15'', delayMs = 15000,
      text_seg = ''Emergency lights bled the car in red haze; the steel walls reflected everyone in the elevator''
        @ [CHR 0xE2, CHR 0x80, CHR 0x94] @ ''except you.''\<rparr>,
     \<lparr>id_seg = ''arrival'', label = ''00:20'', delayMs = 20000,
      text_seg = ''The doors slid open on a hallway cloned from your apartment, but the picture frames showed tonight's photo: you already inside, eyes hollow, waiting.''\<rparr>]"

text \<open>
  \<open>xs[i]\<close> of JavaScript: \<open>undefined\<close> (here \<open>None\<close>) when the index is out of range,
  in particular \<open>xs[-1]\<close> on the empty array.
\<close>

definition at_js :: "'a list \<Rightarrow> int \<Rightarrow> 'a option" where
  "at_js xs i = (if 0 \<le> i \<and> i < int (length xs) then Some (xs ! nat i) else None)"

text \<open>
  Line 45: \<open>storySegments[storySegments.length - 1]?.delayMs ?? 20000\<close>. The optional
  chain gives \<open>undefined\<close> when the element is missing, and \<open>??\<close> then takes the
  fallback. The computation is written for any segment list, \<open>totalDuration\<close> is its
  value on \<open>storySegments\<close>.
\<close>

definition totalDuration_of :: "StorySegment list \<Rightarrow> real" where
  "totalDuration_of segs =
     (case at_js segs (int (length segs) - 1) of
        Some segment \<Rightarrow> delayMs segment
      | None \<Rightarrow> 20000)"

definition totalDuration :: real where
  "totalDuration = totalDuration_of storySegments"

section \<open>Double arithmetic\<close>

text \<open>
  JavaScript numbers are IEEE 754 doubles, and an arithmetic operation gives the double
  nearest to the exact result, a tie going to the double with an even significand. \<open>fl\<close>
  is that rounding: \<open>expo x\<close> is the binary exponent of a positive \<open>x\<close> (the \<open>e\<close>
  with \<open>2^e \<le> x < 2^(e+1)\<close>), the doubles with exponent \<open>e\<close> are the multiples of
  \<open>2^(e-52)\<close>, and below \<open>2^(-1022)\<close> they are the multiples of \<open>2^(-1074)\<close>. A
  result that rounds to \<open>2^1024\<close> or more is \<open>Infinity\<close> in JavaScript; the model has
  no such value, and no number that the component computes comes near it.

  The remaining-time label takes a ceiling, so a rounding error can change it: the
  subtraction of line 94 and the division of line 49 are rounded with \<open>fl\<close>. The
  subtraction of line 74 and the division of line 92 are taken exact; what is proved of
  them below are bounds and the values at the two ends of a run.
\<close>

definition roundEven :: "real \<Rightarrow> int" where
  "roundEven y =
     (let f = \<lfloor>y\<rfloor>; r = y - of_int f
      in if r < 1 / 2 then f else if 1 / 2 < r then f + 1 else if even f then f else f + 1)"

definition expo :: "real \<Rightarrow> int" where
  "expo x = (if 1 \<le> x then bitlen \<lfloor>x\<rfloor> - 1 else - bitlen (\<lceil>1 / x\<rceil> - 1))"

definition fl :: "real \<Rightarrow> real" where
  "fl x =
     (if x = 0 then 0
      else let u = 2 powi (max (expo \<bar>x\<bar>) (- 1022) - 52)
           in sgn x * (of_int (roundEven (\<bar>x\<bar> / u)) * u))"

section \<open>Formatting (lines 47-51)\<close>

definition digit_char :: "nat \<Rightarrow> char" where
  "digit_char d = ''0123456789'' ! d"

text \<open>
  \<open>Number.prototype.toString\<close> on an integral number: the decimal numeral, with a
  minus sign for a negative one. (JavaScript switches to exponent notation from \<open>10^21\<close>
  on, far above every number of seconds that is formatted here.)
\<close>

fun toString_nat :: "nat \<Rightarrow> string" where
  "toString_nat n =
     (if n < 10 then [digit_char n]
      else toString_nat (n div 10) @ [digit_char (n mod 10)])"

declare toString_nat.simps [simp del]

definition toString :: "int \<Rightarrow> string" where
  "toString i = (if i < 0 then CHR ''-'' # toString_nat (nat (- i)) else toString_nat (nat i))"

text \<open>\<open>s.padStart(n, c)\<close> for a one-character pad string.\<close>

definition padStart :: "nat \<Rightarrow> char \<Rightarrow> string \<Rightarrow> string" where
  "padStart n c s = replicate (n - length s) c @ s"

text \<open>\<open>Math.max\<close> and \<open>Math.ceil\<close> are exact, the division is rounded.\<close>

definition formatSeconds :: "real \<Rightarrow> string" where
  "formatSeconds ms =
     (let safeMs = max ms 0;
          seconds = \<lceil>fl (safeMs / 1000)\<rceil>
      in ''00:'' @ padStart 2 (CHR ''0'') (toString seconds))"

section \<open>The component state and the values derived from it (lines 54-57, 92-117, 154-172)\<close>

datatype phase = Idle | Running | Finished

record playback =
  phase :: phase
  runKey :: nat
  activeIndex :: int
  elapsed :: real

text \<open>
  The values that the render derives from the state are written as functions of the state
  variables they read. Line 92:
\<close>

definition progress :: "phase \<Rightarrow> real \<Rightarrow> real" where
  "progress ph el = (if ph = Idle then 0 else min (el / totalDuration) 1)"

text \<open>Lines 93-94, with the subtraction rounded.\<close>

definition remainingLabel :: "phase \<Rightarrow> real \<Rightarrow> string" where
  "remainingLabel ph el =
     (if ph = Finished then ''00:00'' else formatSeconds (fl (totalDuration - el)))"

text \<open>
  \<open>xs.slice(b, e)\<close>: a negative bound counts from the end, and both bounds are clamped
  to the array. \<open>xs.slice(b)\<close> is \<open>xs.slice(b, xs.length)\<close>.
\<close>

definition slice_js :: "'a list \<Rightarrow> int \<Rightarrow> int \<Rightarrow> 'a list" where
  "slice_js xs b e =
     (let len = int (length xs);
          k = (if b < 0 then max (len + b) 0 else min b len);
          final = (if e < 0 then max (len + e) 0 else min e len)
      in take (nat (final - k)) (drop (nat k) xs))"

text \<open>Lines 96-101.\<close>

definition revealedSegments :: "int \<Rightarrow> StorySegment list" where
  "revealedSegments a = (if a < 0 then [] else slice_js storySegments 0 (a + 1))"

text \<open>Lines 105-110 and 112-117: the four state updates of each click handler.\<close>

definition handleStart :: "'a playback_scheme \<Rightarrow> 'a playback_scheme" where
  "handleStart s = s\<lparr>activeIndex := 0, elapsed := 0, phase := Running, runKey := runKey s + 1\<rparr>"

definition handleReplay :: "'a playback_scheme \<Rightarrow> 'a playback_scheme" where
  "handleReplay s = s\<lparr>activeIndex := 0, elapsed := 0, phase := Running, runKey := runKey s + 1\<rparr>"

text \<open>
  Lines 154-172: the marker of the revealed segment at position \<open>index\<close>. The comparison
  \<open>segment.id === storySegments[storySegments.length - 1]?.id\<close> is false when the right
  side is \<open>undefined\<close>.
\<close>

definition isActive :: "phase \<Rightarrow> int \<Rightarrow> nat \<Rightarrow> bool" where
  "isActive ph a index = (int index = a \<and> ph \<noteq> Finished)"

definition isFinal :: "StorySegment \<Rightarrow> bool" where
  "isFinal segment =
     (case at_js storySegments (int (length storySegments) - 1) of
        Some l \<Rightarrow> id_seg segment = id_seg l
      | None \<Rightarrow> False)"

definition marker :: "phase \<Rightarrow> int \<Rightarrow> nat \<Rightarrow> StorySegment \<Rightarrow> string" where
  "marker ph a index segment =
     (if isActive ph a index then ''Now''
      else if isFinal segment \<and> ph = Finished then ''Arrival''
      else ''Echo'')"

definition markers :: "phase \<Rightarrow> int \<Rightarrow> string list" where
  "markers ph a =
     map (\<lambda>(index, segment). marker ph a index segment) (enumerate 0 (revealedSegments a))"

section \<open>The effect and its host (lines 59-90)\<close>

text \<open>
  The effect of lines 59-90 talks to three services of the host: one-shot timers
  (\<open>window.setTimeout\<close>, \<open>window.clearTimeout\<close>), animation frames
  (\<open>requestAnimationFrame\<close>, \<open>cancelAnimationFrame\<close>) and the clock
  (\<open>performance.now\<close>). The host is modelled by the clock \<open>now\<close>, the pending timeouts
  and the pending frame requests, each with the handle the host returned for it.

  A pending timeout stands for the callback \<open>() => setActiveIndex(index + 1)\<close>: \<open>t_index\<close>
  is the value \<open>index + 1\<close> it sets and \<open>t_due\<close> the earliest time it may fire. A pending
  frame request stands for \<open>loop\<close>, which closes over \<open>start\<close> (\<open>f_start\<close>). The fields
  \<open>t_run\<close> and \<open>f_run\<close> record the run key at the time of scheduling. The source does
  not store it and no operation of the model reads these two fields: they only serve to
  state which run a pending callback comes from.
\<close>

record timeout =
  t_id :: nat
  t_due :: real
  t_index :: int
  t_run :: nat

record frame =
  f_id :: nat
  f_start :: real
  f_run :: nat

text \<open>
  The whole system: the four state variables of the component, the host, the dependency
  list \<open>[phase, runKey]\<close> that the effect last ran with, and the variables that the last run
  of the effect left in its closure (\<open>revealTimeouts\<close>, \<open>animationFrameId\<close>, \<open>start\<close>;
  \<open>hasCleanup\<close> tells whether that run returned a cleanup function).
\<close>

record sys = playback +
  now :: real
  nextTimeoutId :: nat
  nextFrameId :: nat
  timeouts :: "timeout list"
  frames :: "frame list"
  deps :: "phase \<times> nat"
  hasCleanup :: bool
  revealTimeouts :: "nat list"
  animationFrameId :: nat
  start :: real

text \<open>
  \<open>window.setTimeout(callback, delay)\<close> returns a fresh handle; the callback may fire once
  \<open>delay\<close> milliseconds have passed (a negative delay counts as 0).
\<close>

definition setTimeout :: "int \<Rightarrow> real \<Rightarrow> sys \<Rightarrow> nat \<times> sys" where
  "setTimeout i delay s =
     (let h = nextTimeoutId s
      in (h, s\<lparr>nextTimeoutId := h + 1,
                timeouts := timeouts s @
                  [\<lparr>t_id = h, t_due = now s + max delay 0, t_index = i, t_run = runKey s\<rparr>]\<rparr>))"

definition clearTimeout :: "nat \<Rightarrow> sys \<Rightarrow> sys" where
  "clearTimeout h s = s\<lparr>timeouts := filter (\<lambda>t. t_id t \<noteq> h) (timeouts s)\<rparr>"

definition requestAnimationFrame :: "real \<Rightarrow> sys \<Rightarrow> nat \<times> sys" where
  "requestAnimationFrame st s =
     (let h = nextFrameId s
      in (h, s\<lparr>nextFrameId := h + 1,
                frames := frames s @ [\<lparr>f_id = h, f_start = st, f_run = runKey s\<rparr>]\<rparr>))"

definition cancelAnimationFrame :: "nat \<Rightarrow> sys \<Rightarrow> sys" where
  "cancelAnimationFrame h s = s\<lparr>frames := filter (\<lambda>f. f_id f \<noteq> h) (frames s)\<rparr>"

text \<open>Lines 64-68: \<open>storySegments.slice(1).map((segment, index) => setTimeout(...))\<close>.\<close>

fun scheduleReveals :: "(nat \<times> StorySegment) list \<Rightarrow> sys \<Rightarrow> nat list \<times> sys" where
  "scheduleReveals [] s = ([], s)"
| "scheduleReveals ((index, segment) # rest) s =
     (let (h, s1) = setTimeout (int index + 1) (delayMs segment) s;
          (hs, s2) = scheduleReveals rest s1
      in (h # hs, s2))"

text \<open>The body of the effect, lines 60-84, with the closure it leaves behind.\<close>

definition effect :: "sys \<Rightarrow> sys" where
  "effect s =
     (if phase s \<noteq> Running then s\<lparr>hasCleanup := False\<rparr>
      else
        let (ids, s1) =
              scheduleReveals
                (enumerate 0 (slice_js storySegments 1 (int (length storySegments)))) s;
            st = now s1;
            (fid, s2) = requestAnimationFrame st s1
        in s2\<lparr>hasCleanup := True, revealTimeouts := ids, animationFrameId := fid, start := st\<rparr>)"

text \<open>The cleanup function, lines 86-89.\<close>

definition cleanup :: "sys \<Rightarrow> sys" where
  "cleanup s = cancelAnimationFrame (animationFrameId s) (fold clearTimeout (revealTimeouts s) s)"

text \<open>
  React after a state update: when \<open>phase\<close> or \<open>runKey\<close> differs from the dependency list
  of the last run of the effect, the cleanup function of that run (if it returned one) is
  called and the effect runs again. The model takes a handler or callback together with
  the commit that follows it as one step: no other callback runs between a state update
  and the cleanup and effect it causes, and the state updates of one callback are applied
  together.
\<close>

definition commit :: "sys \<Rightarrow> sys" where
  "commit s =
     (if deps s = (phase s, runKey s) then s
      else effect ((if hasCleanup s then cleanup s else s)\<lparr>deps := (phase s, runKey s)\<rparr>))"

text \<open>The callback of a reveal timeout, line 66.\<close>

definition revealCallback :: "int \<Rightarrow> 'a playback_scheme \<Rightarrow> 'a playback_scheme" where
  "revealCallback i s = s\<lparr>activeIndex := i\<rparr>"

text \<open>
  \<open>loop\<close>, lines 73-82, called by the host with the timestamp \<open>time\<close>; \<open>st\<close> is the
  \<open>start\<close> that the callback closes over. A further request is stored in the variable
  \<open>animationFrameId\<close> of the same closure.
\<close>

definition loop :: "real \<Rightarrow> real \<Rightarrow> sys \<Rightarrow> sys" where
  "loop st time s =
     (let nextElapsed = min (time - st) totalDuration;
          s1 = s\<lparr>elapsed := nextElapsed\<rparr>
      in if nextElapsed < totalDuration
         then (let (fid, s2) = requestAnimationFrame st s1 in s2\<lparr>animationFrameId := fid\<rparr>)
         else s1\<lparr>phase := Finished\<rparr>)"

text \<open>
  The host firing a pending callback: the request is consumed, the callback runs, React
  commits.
\<close>

definition fireTimeout :: "timeout \<Rightarrow> sys \<Rightarrow> sys" where
  "fireTimeout t s = commit (revealCallback (t_index t) (clearTimeout (t_id t) s))"

definition fireFrame :: "frame \<Rightarrow> real \<Rightarrow> sys \<Rightarrow> sys" where
  "fireFrame f time s = commit (loop (f_start f) time (cancelAnimationFrame (f_id f) s))"

text \<open>
  What can happen to the mounted component: a click on one of the two buttons, time
  passing, a pending timeout firing, a pending frame callback being called with a
  timestamp.
\<close>

datatype event = Start | Replay | Tick real | Timeout nat | Frame nat real

fun step :: "event \<Rightarrow> sys \<Rightarrow> sys" where
  "step Start s = commit (handleStart s)"
| "step Replay s = commit (handleReplay s)"
| "step (Tick d) s = s\<lparr>now := now s + d\<rparr>"
| "step (Timeout h) s =
     (case find (\<lambda>t. t_id t = h) (timeouts s) of
        None \<Rightarrow> s
      | Some t \<Rightarrow> fireTimeout t s)"
| "step (Frame h time) s =
     (case find (\<lambda>f. f_id f = h) (frames s) of
        None \<Rightarrow> s
      | Some f \<Rightarrow> fireFrame f time s)"

text \<open>
  When the host may do so. The clock never runs backwards; a timeout fires no earlier than
  it is due, and otherwise at any later time; a frame callback never gets a timestamp from
  the future. The order in which due timeouts and frame callbacks run is not determined.
  The timestamp of a frame is taken by the host when the frame begins, so it can lie before
  a \<open>performance.now()\<close> reading made later in the same frame: with \<open>late = True\<close> the
  host is assumed never to hand \<open>loop\<close> a timestamp below its \<open>start\<close>, with
  \<open>late = False\<close> nothing is assumed. The source does not guard the handlers by the
  phase (the buttons are only rendered in the phases idle and finished), so neither does
  the model.
\<close>

fun enabled :: "bool \<Rightarrow> sys \<Rightarrow> event \<Rightarrow> bool" where
  "enabled late s Start = True"
| "enabled late s Replay = True"
| "enabled late s (Tick d) = (0 \<le> d)"
| "enabled late s (Timeout h) =
     (case find (\<lambda>t. t_id t = h) (timeouts s) of
        None \<Rightarrow> False
      | Some t \<Rightarrow> t_due t \<le> now s)"
| "enabled late s (Frame h time) =
     (case find (\<lambda>f. f_id f = h) (frames s) of
        None \<Rightarrow> False
      | Some f \<Rightarrow> time \<le> now s \<and> (late \<longrightarrow> f_start f \<le> time))"

text \<open>
  The mounted component before any click (lines 54-57); the effect has run once, in the
  phase idle, and has returned no cleanup.
\<close>

definition init :: sys where
  "init = \<lparr>phase = Idle, runKey = 0, activeIndex = - 1, elapsed = 0,
           now = 0, nextTimeoutId = 1, nextFrameId = 1, timeouts = [], frames = [],
           deps = (Idle, 0), hasCleanup = False, revealTimeouts = [], animationFrameId = 0,
           start = 0\<rparr>"

inductive reaches :: "bool \<Rightarrow> sys \<Rightarrow> sys \<Rightarrow> bool" for late :: bool and s :: sys where
  here: "reaches late s s"
| after: "reaches late s s' \<Longrightarrow> enabled late s' e \<Longrightarrow> reaches late s (step e s')"

definition reachable :: "bool \<Rightarrow> sys \<Rightarrow> bool" where
  "reachable late s = reaches late init s"

text \<open>Running a list of events, and whether each of them is enabled when its turn comes.\<close>

fun run :: "event list \<Rightarrow> sys \<Rightarrow> sys" where
  "run [] s = s"
| "run (e # es) s = run es (step e s)"

fun admissible :: "bool \<Rightarrow> event list \<Rightarrow> sys \<Rightarrow> bool" where
  "admissible late [] s = True"
| "admissible late (e # es) s = (enabled late s e \<and> admissible late es (step e s))"

section \<open>Notions used to state the properties\<close>

text \<open>The reveal offset of the segment at index \<open>i\<close>.\<close>

definition offsetOf :: "int \<Rightarrow> real" where
  "offsetOf i = delayMs (storySegments ! nat i)"

text \<open>
  What a user and the host can tell of a state: the state variables but the run key, the
  clock, the start of the run, and what the pending callbacks will do and when, without
  their handles.
\<close>

definition observable ::
  "sys \<Rightarrow> phase \<times> int \<times> real \<times> real \<times> real \<times> (int \<times> real) list \<times> real list" where
  "observable s =
     (phase s, activeIndex s, elapsed s, now s, start s,
      map (\<lambda>t. (t_index t, t_due t)) (timeouts s), map f_start (frames s))"

text \<open>
  The invariant of the system. Besides the bounds on the state variables it says that the
  effect has run for the current dependency list, that callbacks are pending only while
  the phase is running, and that every pending callback is one that the cleanup function
  of the last effect run will cancel, was scheduled under the current run key, and is due
  at its offset after the start of the current run.
\<close>

definition sound :: "bool \<Rightarrow> sys \<Rightarrow> bool" where
  "sound late s \<longleftrightarrow>
     deps s = (phase s, runKey s) \<and>
     hasCleanup s = (phase s = Running) \<and>
     (phase s = Idle \<longrightarrow> activeIndex s = - 1 \<and> elapsed s = 0) \<and>
     (phase s \<noteq> Idle \<longrightarrow>
        0 \<le> activeIndex s \<and> activeIndex s < int (length storySegments) \<and>
        offsetOf (activeIndex s) \<le> now s - start s) \<and>
     elapsed s \<le> totalDuration \<and>
     (phase s = Running \<longrightarrow> elapsed s < totalDuration) \<and>
     (phase s = Finished \<longrightarrow> elapsed s = totalDuration) \<and>
     (late \<longrightarrow> 0 \<le> elapsed s) \<and>
     (phase s \<noteq> Running \<longrightarrow> timeouts s = [] \<and> frames s = []) \<and>
     (\<forall>t \<in> set (timeouts s).
        t_id t \<in> set (revealTimeouts s) \<and> t_run t = runKey s \<and>
        1 \<le> t_index t \<and> t_index t < int (length storySegments) \<and>
        t_due t = start s + offsetOf (t_index t)) \<and>
     (\<forall>f \<in> set (frames s).
        f_id f = animationFrameId s \<and> f_run f = runKey s \<and> f_start f = start s)"

text \<open>
  Three runs of the component. In \<open>fullRun\<close> every reveal timeout fires when it is due
  and the frame callback that ends the run comes last. In \<open>lateReveal\<close> the frame callback
  for the timestamp 20000 runs while the timeout of the last segment, due at the same
  time, has not been run yet. In \<open>earlyStamp\<close> the click comes at clock 100 and the first
  frame callback gets the timestamp 99 of a frame that began before the click.
\<close>

definition fullRun :: "event list" where
  "fullRun = [Start, Tick 5000, Timeout 1, Tick 5000, Timeout 2, Tick 5000, Timeout 3,
              Tick 5000, Timeout 4, Frame 1 20000]"

definition lateReveal :: "event list" where
  "lateReveal = [Start, Tick 5000, Timeout 1, Tick 5000, Timeout 2, Tick 5000, Timeout 3,
                 Tick 5000, Frame 1 20000]"

definition earlyStamp :: "event list" where
  "earlyStamp = [Tick 100, Start, Frame 1 99]"

section \<open>Facts about the script\<close>

lemma length_storySegments: "length storySegments = 5"
  by (simp add: storySegments_def)

lemma ids_storySegments:
  "map id_seg storySegments = [''sealed'', ''countdown'', ''warning'', ''reflection'', ''arrival'']"
  by (simp add: storySegments_def)

lemma totalDuration_value: "totalDuration = 20000"
  by (simp add: totalDuration_def totalDuration_of_def at_js_def storySegments_def)

lemma offsetOf_values:
  "offsetOf 0 = 0" "offsetOf 1 = 5000" "offsetOf 2 = 10000" "offsetOf 3 = 15000"
  "offsetOf 4 = 20000"
  by (simp_all add: offsetOf_def storySegments_def)

lemma at_js_last: "at_js xs (int (length xs) - 1) = (if xs = [] then None else Some (last xs))"
  by (cases xs rule: rev_cases) (simp_all add: at_js_def nth_append)

text \<open>
  \<^bold>\<open>C10.\<close> \<open>totalDuration\<close> is defined whatever the segment list is: the optional chain
  with its fallback gives 20000 on the empty list and the offset of the last segment on any
  other list; on the five segments of the script that offset is 20000.
\<close>

theorem totalDuration_total:
  "totalDuration_of [] = 20000 \<and>
   totalDuration_of segs = (if segs = [] then 20000 else delayMs (last segs)) \<and>
   totalDuration = delayMs (last storySegments) \<and>
   totalDuration = 20000"
proof -
  have "totalDuration_of [] = 20000"
    by (simp add: totalDuration_of_def at_js_def)
  moreover have "totalDuration_of segs = (if segs = [] then 20000 else delayMs (last segs))"
    by (simp add: totalDuration_of_def at_js_last)
  moreover have "totalDuration = delayMs (last storySegments)"
    by (simp add: totalDuration_def totalDuration_of_def at_js_last) (simp add: storySegments_def)
  ultimately show ?thesis
    by (simp add: totalDuration_value)
qed

section \<open>Rounding to doubles\<close>

lemma roundEven_err: "\<bar>of_int (roundEven y) - y\<bar> \<le> 1 / 2"
  unfolding roundEven_def Let_def by (auto simp: abs_le_iff)

lemma roundEven_of_int: "roundEven (of_int k) = k"
  by (simp add: roundEven_def)

lemma roundEven_nonneg: "0 \<le> y \<Longrightarrow> 0 \<le> roundEven y"
  unfolding roundEven_def Let_def by (auto simp: ) 

lemma fl_nonneg: "0 \<le> x \<Longrightarrow> 0 \<le> fl x"
  by (simp add: fl_def Let_def roundEven_nonneg)

lemma expo_less:
  assumes "0 < x" and "x < 2 ^ n"
  shows "expo x < int n"
proof (cases "1 \<le> x")
  case True
  have "\<lfloor>x\<rfloor> < 2 ^ n"
    using assms(2) by (simp add: floor_less_iff)
  then have "bitlen \<lfloor>x\<rfloor> \<le> int n"
    by (simp add: bitlen_le_iff_power)
  with True show ?thesis by (simp add: expo_def)
next
  case False
  with assms(1) have "1 < 1 / x" by simp
  then have "2 \<le> \<lceil>1 / x\<rceil>" by linarith
  then have "0 < bitlen (\<lceil>1 / x\<rceil> - 1)"
    using bitlen_eq_zero_iff [of "\<lceil>1 / x\<rceil> - 1"] bitlen_nonneg [of "\<lceil>1 / x\<rceil> - 1"] by linarith
  with False show ?thesis by (simp add: expo_def)
qed

lemma fl_err:
  assumes "x \<noteq> 0"
  shows "\<bar>fl x - x\<bar> \<le> 2 powi (max (expo \<bar>x\<bar>) (- 1022) - 52) / 2"
proof -
  define u :: real where "u = 2 powi (max (expo \<bar>x\<bar>) (- 1022) - 52)"
  have u: "0 < u" by (simp add: u_def)
  have "\<bar>of_int (roundEven (\<bar>x\<bar> / u)) - \<bar>x\<bar> / u\<bar> \<le> 1 / 2"
    by (rule roundEven_err)
  then have "\<bar>of_int (roundEven (\<bar>x\<bar> / u)) - \<bar>x\<bar> / u\<bar> * u \<le> 1 / 2 * u"
    using u by (intro mult_right_mono) simp_all
  moreover have "of_int (roundEven (\<bar>x\<bar> / u)) * u - \<bar>x\<bar>
      = (of_int (roundEven (\<bar>x\<bar> / u)) - \<bar>x\<bar> / u) * u"
    using u by (simp add: left_diff_distrib)
  ultimately have "\<bar>of_int (roundEven (\<bar>x\<bar> / u)) * u - \<bar>x\<bar>\<bar> \<le> u / 2"
    using u by (simp add: abs_mult)
  moreover have "\<bar>fl x - x\<bar> = \<bar>of_int (roundEven (\<bar>x\<bar> / u)) * u - \<bar>x\<bar>\<bar>"
  proof (cases "0 < x")
    case True
    then show ?thesis using assms by (simp add: fl_def Let_def u_def)
  next
    case False
    with assms have "x < 0" by simp
    then show ?thesis using assms by (simp add: fl_def Let_def u_def)
  qed
  ultimately show ?thesis by (simp add: u_def)
qed

lemma fl_of_int_pos:
  assumes "0 < n" and "n < 2 ^ 53"
  shows "fl (of_int n) = of_int n"
proof -
  define k where "k = nat (53 - bitlen n)"
  have b1: "1 \<le> bitlen n"
    using assms(1) bitlen_eq_zero_iff [of n] bitlen_nonneg [of n] by linarith
  have b2: "bitlen n \<le> 53"
    using assms(2) by (simp add: bitlen_le_iff_power)
  have e: "expo \<bar>of_int n\<bar> = bitlen n - 1"
    using assms(1) by (simp add: expo_def)
  have m: "max (bitlen n - 1) (- 1022) - 52 = - int k"
    using b1 b2 by (simp add: k_def)
  have u: "(2::real) powi (- int k) = 1 / 2 ^ k"
    by (simp add: power_int_minus_divide)
  have q: "\<bar>real_of_int n\<bar> / (1 / 2 ^ k) = of_int (n * 2 ^ k)"
    using assms(1) by simp
  have "fl (of_int n) = sgn (real_of_int n) * (of_int (roundEven (of_int (n * 2 ^ k))) * (1 / 2 ^ k))"
    using assms(1) unfolding fl_def Let_def e m u q by simp
  also have "\<dots> = of_int n"
    using assms(1) unfolding roundEven_of_int by simp
  finally show ?thesis .
qed

lemma fl_of_nat: "n < 2 ^ 53 \<Longrightarrow> fl (real n) = real n"
proof (cases "n = 0")
  case True
  then show ?thesis by (simp add: fl_def)
next
  case False
  assume "n < 2 ^ 53"
  then have "int n < 2 ^ 53"
    by (metis of_nat_less_numeral_power_cancel_iff)
  with False fl_of_int_pos [of "int n"] show ?thesis by simp
qed

lemma fl_close:
  assumes "0 < x" and "x < 32"
  shows "\<bar>fl x - x\<bar> \<le> 1 / 2 ^ 49"
proof -
  have "expo x < 5"
    using expo_less [of x 5] assms by simp
  then have "max (expo \<bar>x\<bar>) (- 1022) - 52 \<le> - 48"
    using assms(1) by simp
  then have "(2::real) powi (max (expo \<bar>x\<bar>) (- 1022) - 52) \<le> 2 powi (- 48)"
    by (intro power_int_increasing) simp_all
  moreover have "\<bar>fl x - x\<bar> \<le> 2 powi (max (expo \<bar>x\<bar>) (- 1022) - 52) / 2"
    using assms(1) by (intro fl_err) simp
  ultimately have "\<bar>fl x - x\<bar> \<le> 2 powi (- 48) / 2"
    by linarith
  then show ?thesis
    by (simp add: power_int_minus_divide)
qed

lemma ceiling_fl_ms:
  assumes "m \<le> 20000"
  shows "\<lceil>fl (real m / 1000)\<rceil> = \<lceil>real m / 1000\<rceil>"
proof -
  define k where "k = m div 1000"
  define j where "j = m mod 1000"
  have m: "m = 1000 * k + j" and j: "j < 1000"
    by (simp_all add: k_def j_def)
  have x: "real m / 1000 = real k + real j / 1000"
    by (simp add: m)
  show ?thesis
  proof (cases "j = 0")
    case True
    from assms m have "k < 2 ^ 53" by simp
    from fl_of_nat [OF this] True show ?thesis by (simp add: x)
  next
    case False
    then have j1: "1 \<le> real j" by simp
    from j have j2: "real j \<le> 999" by simp
    have pos: "0 < real m / 1000" using j1 by (simp add: x add_pos_nonneg)
    have lt: "real m / 1000 < 32" using assms by simp
    have cl: "\<bar>fl (real m / 1000) - real m / 1000\<bar> \<le> 1 / 2 ^ 49"
      by (rule fl_close [OF pos lt])
    have "\<lceil>real m / 1000\<rceil> = int k + 1"
      by (rule ceiling_unique) (use j1 j2 in \<open>simp_all add: x\<close>)
    moreover have "\<lceil>fl (real m / 1000)\<rceil> = int k + 1"
    proof (rule ceiling_unique)
      have e: "(1::real) / 2 ^ 49 < 1 / 1000" by simp
      have c: "real_of_int (int k + 1) = real k + 1" by simp
      show "of_int (int k + 1) - 1 < fl (real m / 1000)"
        unfolding c using cl e j1 x by linarith
      show "fl (real m / 1000) \<le> of_int (int k + 1)"
        unfolding c using cl e j2 x by linarith
    qed
    ultimately show ?thesis by simp
  qed
qed

lemmas fl_eval = fl_def expo_def roundEven_def Let_def compute_bitlen power_int_minus_divide

section \<open>The remaining-time label\<close>

lemma toString_nat_one: "n < 10 \<Longrightarrow> toString_nat n = [digit_char n]"
  by (simp add: toString_nat.simps)

lemma toString_nat_two:
  "10 \<le> n \<Longrightarrow> n < 100 \<Longrightarrow> toString_nat n = [digit_char (n div 10), digit_char (n mod 10)]"
  by (subst toString_nat.simps) (simp add: toString_nat_one)

lemma padStart_one: "length s = 1 \<Longrightarrow> padStart 2 c s = c # s"
  by (simp add: padStart_def)

lemma padStart_long: "2 \<le> length s \<Longrightarrow> padStart 2 c s = s"
  by (simp add: padStart_def)

lemma seconds_nonneg: "0 \<le> \<lceil>fl (max ms 0 / 1000)\<rceil>"
proof -
  have "0 \<le> fl (max ms 0 / 1000)"
    by (rule fl_nonneg) simp
  then show ?thesis
    by (simp add: le_ceiling_iff)
qed

lemma formatSeconds_two_digits:
  assumes "k = nat \<lceil>fl (max ms 0 / 1000)\<rceil>" and "k < 100"
  shows "formatSeconds ms = ''00:'' @ [digit_char (k div 10), digit_char (k mod 10)]"
proof -
  have n: "\<not> \<lceil>fl (max ms 0 / 1000)\<rceil> < 0"
    using seconds_nonneg [of ms] by simp
  have f: "formatSeconds ms = ''00:'' @ padStart 2 (CHR ''0'') (toString_nat k)"
    by (simp only: formatSeconds_def Let_def toString_def n if_False assms(1))
  show ?thesis
  proof (cases "k < 10")
    case True
    then show ?thesis
      by (simp add: f toString_nat_one padStart_one digit_char_def)
  next
    case False
    then show ?thesis using assms(2)
      by (simp add: f toString_nat_two padStart_long)
  qed
qed

lemma remainingLabel_whole_ms:
  assumes "ph \<noteq> Finished" and "n \<le> 20000"
  shows "remainingLabel ph (real n) =
    ''00:'' @ padStart 2 (CHR ''0'') (toString \<lceil>max (totalDuration - real n) 0 / 1000\<rceil>)"
proof -
  have d: "totalDuration - real n = real (20000 - n)"
    using assms(2) by (simp add: totalDuration_value)
  have "20000 - n < 2 ^ 53" by simp
  from fl_of_nat [OF this] have s: "fl (totalDuration - real n) = real (20000 - n)"
    by (simp only: d)
  have c: "\<lceil>fl (real (20000 - n) / 1000)\<rceil> = \<lceil>real (20000 - n) / 1000\<rceil>"
    by (rule ceiling_fl_ms) simp
  have m: "max (real (20000 - n)) 0 = real (20000 - n)"
    by simp
  have "remainingLabel ph (real n) = formatSeconds (real (20000 - n))"
    using assms(1) by (simp only: remainingLabel_def s if_False)
  also have "\<dots> = ''00:'' @ padStart 2 (CHR ''0'') (toString \<lceil>real (20000 - n) / 1000\<rceil>)"
    by (simp only: formatSeconds_def Let_def m c)
  finally show ?thesis
    by (simp only: d m)
qed

lemmas label_defs = remainingLabel_def totalDuration_value formatSeconds_def toString_def
  toString_nat.simps padStart_def digit_char_def

lemma toString_values: "toString 19 = ''19''" "toString 20 = ''20''"
  by (simp_all add: toString_def toString_nat.simps digit_char_def)

text \<open>
  \<^bold>\<open>C5, as stated, fails.\<close> The label is computed in doubles. Take the clock readings
  1024.1 and 24.1: their difference as line 74 computes it is the double below 1000,
  \<open>1000 - 2^(-43)\<close>. For this elapsed time \<open>totalDuration - elapsed\<close> rounds to 19000
  and the label of a running phase is \<open>00:19\<close>, while
  \<open>ceil(max(totalDuration - elapsed, 0) / 1000)\<close> is 20.
\<close>

theorem remainingLabel_rounded:
  "fl (fl (10241 / 10) - fl (241 / 10)) = 1000 - 1 / 2 ^ 43 \<and>
   fl (1000 - 1 / 2 ^ 43) = 1000 - 1 / 2 ^ 43 \<and>
   remainingLabel Running (1000 - 1 / 2 ^ 43) = ''00:19'' \<and>
   ''00:'' @ padStart 2 (CHR ''0'')
      (toString \<lceil>max (totalDuration - (1000 - 1 / 2 ^ 43)) 0 / 1000\<rceil>) = ''00:20''"
proof -
  have a: "fl (10241 / 10) = 2252019716010803 / 2 ^ 41"
    "fl (241 / 10) = 3391773469363405 / 2 ^ 47"
    by (simp_all add: fl_eval)
  have b: "fl (fl (10241 / 10) - fl (241 / 10)) = 1000 - 1 / 2 ^ 43"
    unfolding a by (simp add: fl_eval)
  have c: "fl (1000 - 1 / 2 ^ 43) = 1000 - 1 / 2 ^ 43"
    by (simp add: fl_eval)
  have s1: "fl (totalDuration - (1000 - 1 / 2 ^ 43)) = 19000"
    by (simp add: totalDuration_value fl_eval)
  have s2: "\<lceil>fl (max 19000 0 / 1000)\<rceil> = 19"
    by (simp add: fl_eval)
  have d: "remainingLabel Running (1000 - 1 / 2 ^ 43) = ''00:19''"
    by (simp only: remainingLabel_def formatSeconds_def Let_def s1 s2 toString_values)
       (simp add: padStart_def)
  have s3: "\<lceil>max (totalDuration - (1000 - 1 / 2 ^ 43)) 0 / 1000\<rceil> = 20"
    by (rule ceiling_unique) (simp_all add: totalDuration_value)
  have e: "''00:'' @ padStart 2 (CHR ''0'')
      (toString \<lceil>max (totalDuration - (1000 - 1 / 2 ^ 43)) 0 / 1000\<rceil>) = ''00:20''"
    by (simp only: s3 toString_values) (simp add: padStart_def)
  from b c d e show ?thesis
    by simp
qed

text \<open>
  \<^bold>\<open>C5, amended.\<close> The remaining-time label is a function of the phase and the elapsed time
  only. In the phase finished it is \<open>00:00\<close>. In any other phase it is \<open>00:\<close> followed by
  a number of seconds padded with a zero to two digits, where the number of seconds is
  \<open>ceil(max(totalDuration - elapsed, 0) / 1000)\<close> with the subtraction and the division
  rounded to doubles; that number is never negative, and when it is below 100 the label is
  \<open>00:\<close> and exactly its two decimal digits. For an elapsed time that is a whole number
  of milliseconds up to the total duration the number of seconds is the exact value
  \<open>ceil((totalDuration - elapsed) / 1000)\<close>. With the total duration 20000, the elapsed
  times 0, 20000, 15000 and 14001 give \<open>00:20\<close>, \<open>00:00\<close>, \<open>00:05\<close> and \<open>00:06\<close>.
\<close>

theorem remainingLabel_correct:
  "remainingLabel Finished el = ''00:00'' \<and>
   (ph \<noteq> Finished \<longrightarrow>
      remainingLabel ph el =
        ''00:'' @ padStart 2 (CHR ''0'')
          (toString \<lceil>fl (max (fl (totalDuration - el)) 0 / 1000)\<rceil>) \<and>
      0 \<le> \<lceil>fl (max (fl (totalDuration - el)) 0 / 1000)\<rceil> \<and>
      (\<lceil>fl (max (fl (totalDuration - el)) 0 / 1000)\<rceil> < 100 \<longrightarrow>
         remainingLabel ph el =
           ''00:'' @
             [digit_char (nat \<lceil>fl (max (fl (totalDuration - el)) 0 / 1000)\<rceil> div 10),
              digit_char (nat \<lceil>fl (max (fl (totalDuration - el)) 0 / 1000)\<rceil> mod 10)])) \<and>
   (ph \<noteq> Finished \<and> n \<le> 20000 \<longrightarrow>
      remainingLabel ph (real n) =
        ''00:'' @ padStart 2 (CHR ''0'')
          (toString \<lceil>max (totalDuration - real n) 0 / 1000\<rceil>)) \<and>
   totalDuration = 20000 \<and>
   remainingLabel Running 0 = ''00:20'' \<and>
   remainingLabel Running 20000 = ''00:00'' \<and>
   remainingLabel Running 15000 = ''00:05'' \<and>
   remainingLabel Running 14001 = ''00:06''"
proof -
  have fin: "remainingLabel Finished el = ''00:00''"
    by (simp add: remainingLabel_def)
  have gen: "remainingLabel ph el =
        ''00:'' @ padStart 2 (CHR ''0'')
          (toString \<lceil>fl (max (fl (totalDuration - el)) 0 / 1000)\<rceil>)"
    if "ph \<noteq> Finished"
    using that by (simp add: remainingLabel_def formatSeconds_def Let_def)
  have two: "remainingLabel ph el =
           ''00:'' @
             [digit_char (nat \<lceil>fl (max (fl (totalDuration - el)) 0 / 1000)\<rceil> div 10),
              digit_char (nat \<lceil>fl (max (fl (totalDuration - el)) 0 / 1000)\<rceil> mod 10)]"
    if "ph \<noteq> Finished" and "\<lceil>fl (max (fl (totalDuration - el)) 0 / 1000)\<rceil> < 100"
  proof -
    have "nat \<lceil>fl (max (fl (totalDuration - el)) 0 / 1000)\<rceil> < 100"
      using that(2) by linarith
    from formatSeconds_two_digits [OF refl this] that(1) show ?thesis
      by (simp add: remainingLabel_def)
  qed
  have whole: "remainingLabel ph (real n) =
        ''00:'' @ padStart 2 (CHR ''0'')
          (toString \<lceil>max (totalDuration - real n) 0 / 1000\<rceil>)"
    if "ph \<noteq> Finished" and "n \<le> 20000"
    by (rule remainingLabel_whole_ms [OF that])
  have r: "Running \<noteq> Finished" by simp
  have ex: "remainingLabel Running 0 = ''00:20''" "remainingLabel Running 20000 = ''00:00''"
    "remainingLabel Running 15000 = ''00:05''" "remainingLabel Running 14001 = ''00:06''"
    using remainingLabel_whole_ms [OF r, of 0] remainingLabel_whole_ms [OF r, of 20000]
      remainingLabel_whole_ms [OF r, of 15000] remainingLabel_whole_ms [OF r, of 14001]
    by (simp_all add: totalDuration_value toString_def toString_nat.simps padStart_def
        digit_char_def)
  show ?thesis
    using fin gen two whole ex seconds_nonneg [of "fl (totalDuration - el)"] totalDuration_value
    by blast
qed

theorem remainingLabel_correct_witness:
  "Idle \<noteq> Finished \<and> (12345::nat) \<le> 20000 \<and>
   \<lceil>fl (max (fl (totalDuration - 12345)) 0 / 1000)\<rceil> < 100 \<and>
   remainingLabel Idle 12345 = ''00:08''"
  using remainingLabel_correct [of 12345 Idle 12345]
  by (simp add: totalDuration_value fl_eval)
     (simp add: toString_def toString_nat.simps padStart_def digit_char_def)

section \<open>The revealed segments and their markers\<close>

lemma slice_js_prefix: "0 \<le> e \<Longrightarrow> slice_js xs 0 e = take (nat e) xs"
  by (simp add: slice_js_def Let_def min_def)

lemma slice_js_tail: "slice_js xs 1 (int (length xs)) = drop 1 xs"
  by (cases xs) (simp_all add: slice_js_def Let_def)

lemma revealedSegments_take: "revealedSegments a = take (nat (a + 1)) storySegments"
  by (simp add: revealedSegments_def slice_js_prefix)

lemma isFinal_nth:
  assumes "i < length storySegments"
  shows "isFinal (storySegments ! i) = (i = length storySegments - 1)"
proof -
  from assms have i: "i < 5" by (simp add: length_storySegments)
  have d: "distinct (map id_seg storySegments)" by (simp add: ids_storySegments)
  have "isFinal (storySegments ! i) = (id_seg (storySegments ! i) = id_seg (storySegments ! 4))"
    by (simp add: isFinal_def at_js_def length_storySegments)
  also have "\<dots> = (map id_seg storySegments ! i = map id_seg storySegments ! 4)"
    using i by (simp add: length_storySegments)
  also have "\<dots> = (i = 4)"
    using i nth_eq_iff_index_eq [OF d, of i 4] by (simp add: length_storySegments)
  finally show ?thesis by (simp add: length_storySegments)
qed

lemma markers_nth:
  "i < length (revealedSegments a) \<Longrightarrow> markers ph a ! i = marker ph a i (storySegments ! i)"
  by (simp add: markers_def nth_enumerate_eq revealedSegments_take)

text \<open>
  \<^bold>\<open>C9.\<close> For every revealed segment, at position \<open>i\<close>: its marker is \<open>Now\<close> exactly when
  \<open>i\<close> is the active index and the phase is not finished; in the phase finished the last
  segment of the script is marked \<open>Arrival\<close>; every other revealed segment that is not
  active is marked \<open>Echo\<close>.
\<close>

theorem marker_correct:
  assumes "i < length (revealedSegments a)"
  shows "(markers ph a ! i = ''Now'' \<longleftrightarrow> int i = a \<and> ph \<noteq> Finished) \<and>
         (ph = Finished \<and> i = length storySegments - 1 \<longrightarrow> markers ph a ! i = ''Arrival'') \<and>
         (\<not> (int i = a \<and> ph \<noteq> Finished) \<and> \<not> (ph = Finished \<and> i = length storySegments - 1) \<longrightarrow>
            markers ph a ! i = ''Echo'')"
proof -
  from assms have "i < length storySegments" by (simp add: revealedSegments_take)
  then show ?thesis using assms
    by (simp add: markers_nth marker_def isFinal_nth isActive_def)
qed

theorem marker_correct_witness:
  "4 < length (revealedSegments 4) \<and> 2 < length (revealedSegments 4) \<and>
   markers Finished 4 ! 4 = ''Arrival'' \<and> markers Finished 4 ! 2 = ''Echo'' \<and>
   markers Running 4 ! 4 = ''Now'' \<and> markers Running 4 ! 2 = ''Echo''"
  using marker_correct [of 4 4 Finished] marker_correct [of 2 4 Finished]
    marker_correct [of 4 4 Running] marker_correct [of 2 4 Running]
  by (simp add: revealedSegments_take length_storySegments)

section \<open>The effect, its cleanup and the steps\<close>

lemma effect_idle: "phase s \<noteq> Running \<Longrightarrow> effect s = s\<lparr>hasCleanup := False\<rparr>"
  by (simp add: effect_def)

lemma effect_running:
  "phase s = Running \<Longrightarrow>
   effect s = s\<lparr>nextTimeoutId := nextTimeoutId s + 4,
      timeouts := timeouts s @
        [\<lparr>t_id = nextTimeoutId s, t_due = now s + 5000, t_index = 1, t_run = runKey s\<rparr>,
         \<lparr>t_id = nextTimeoutId s + 1, t_due = now s + 10000, t_index = 2, t_run = runKey s\<rparr>,
         \<lparr>t_id = nextTimeoutId s + 2, t_due = now s + 15000, t_index = 3, t_run = runKey s\<rparr>,
         \<lparr>t_id = nextTimeoutId s + 3, t_due = now s + 20000, t_index = 4, t_run = runKey s\<rparr>],
      nextFrameId := nextFrameId s + 1,
      frames := frames s @ [\<lparr>f_id = nextFrameId s, f_start = now s, f_run = runKey s\<rparr>],
      hasCleanup := True,
      revealTimeouts :=
        [nextTimeoutId s, nextTimeoutId s + 1, nextTimeoutId s + 2, nextTimeoutId s + 3],
      animationFrameId := nextFrameId s,
      start := now s\<rparr>"
  by (simp add: effect_def slice_js_tail)
     (simp add: storySegments_def setTimeout_def requestAnimationFrame_def Let_def)

lemma fold_clearTimeout:
  "fold clearTimeout hs s = s\<lparr>timeouts := filter (\<lambda>t. t_id t \<notin> set hs) (timeouts s)\<rparr>"
proof (induction hs arbitrary: s)
  case Nil
  then show ?case by simp
next
  case (Cons h hs)
  show ?case
    by (simp add: Cons.IH) (simp add: clearTimeout_def conj_commute)
qed

lemma cleanup_eq:
  "cleanup s = s\<lparr>timeouts := filter (\<lambda>t. t_id t \<notin> set (revealTimeouts s)) (timeouts s),
                 frames := filter (\<lambda>f. f_id f \<noteq> animationFrameId s) (frames s)\<rparr>"
  by (simp add: cleanup_def fold_clearTimeout cancelAnimationFrame_def)

lemma commit_playback:
  "phase (commit s) = phase s \<and> runKey (commit s) = runKey s \<and>
   activeIndex (commit s) = activeIndex s \<and> elapsed (commit s) = elapsed s"
proof (cases "phase s = Running")
  case True
  then show ?thesis
    by (simp add: commit_def cleanup_eq effect_running)
next
  case False
  then show ?thesis
    by (simp add: commit_def cleanup_eq effect_idle)
qed

lemma step_Replay_eq: "step Replay s = step Start s"
  by (simp add: handleReplay_def handleStart_def)

lemma find_id_member: "find (\<lambda>t. g t = h) xs = Some t \<Longrightarrow> t \<in> set xs \<and> g t = h"
  by (induction xs) (auto split: if_splits)

text \<open>
  \<^bold>\<open>C6.\<close> \<open>start()\<close>, from any state and so from one in the phase idle or finished, gives
  a state with active index 0, elapsed time 0, the phase running and a run key one greater
  than before. The handler changes nothing else, and the commit that follows it changes
  none of these four; the script is a constant that no operation can change.
\<close>

theorem handleStart_effect:
  "activeIndex (handleStart s) = 0 \<and> elapsed (handleStart s) = 0 \<and>
   phase (handleStart s) = Running \<and> runKey (handleStart s) = runKey s + 1 \<and>
   playback.more (handleStart s) = playback.more s \<and>
   activeIndex (step Start t) = 0 \<and> elapsed (step Start t) = 0 \<and>
   phase (step Start t) = Running \<and> runKey (step Start t) = runKey t + 1"
  by (simp add: commit_playback) (simp add: handleStart_def)

text \<open>
  \<^bold>\<open>C7.\<close> \<open>replay()\<close> does exactly what \<open>start()\<close> does: from every state the two handlers
  give the same state, the commit that follows schedules the same callbacks, and whatever
  events come after, the two runs stay the same and allow the same events.
\<close>

theorem handleReplay_same:
  "handleReplay s = handleStart s \<and> step Replay t = step Start t \<and>
   run (Replay # es) t = run (Start # es) t \<and>
   admissible late (Replay # es) t = admissible late (Start # es) t"
  by (simp add: handleReplay_def handleStart_def)

section \<open>The invariant\<close>

lemma soundI:
  assumes "deps s = (phase s, runKey s)"
    and "hasCleanup s = (phase s = Running)"
    and "phase s = Idle \<Longrightarrow> activeIndex s = - 1 \<and> elapsed s = 0"
    and "phase s \<noteq> Idle \<Longrightarrow>
        0 \<le> activeIndex s \<and> activeIndex s < int (length storySegments) \<and>
        offsetOf (activeIndex s) \<le> now s - start s"
    and "elapsed s \<le> totalDuration"
    and "phase s = Running \<Longrightarrow> elapsed s < totalDuration"
    and "phase s = Finished \<Longrightarrow> elapsed s = totalDuration"
    and "late \<Longrightarrow> 0 \<le> elapsed s"
    and "phase s \<noteq> Running \<Longrightarrow> timeouts s = [] \<and> frames s = []"
    and "\<And>t. t \<in> set (timeouts s) \<Longrightarrow>
        t_id t \<in> set (revealTimeouts s) \<and> t_run t = runKey s \<and>
        1 \<le> t_index t \<and> t_index t < int (length storySegments) \<and>
        t_due t = start s + offsetOf (t_index t)"
    and "\<And>f. f \<in> set (frames s) \<Longrightarrow>
        f_id f = animationFrameId s \<and> f_run f = runKey s \<and> f_start f = start s"
  shows "sound late s"
  unfolding sound_def
  apply (intro conjI impI ballI)
  using assms apply simp_all
  done

lemma sound_deps:
  "sound late s \<Longrightarrow> deps s = (phase s, runKey s) \<and> hasCleanup s = (phase s = Running)"
  by (simp add: sound_def)

lemma sound_state:
  assumes "sound late s"
  shows "phase s = Idle \<Longrightarrow> activeIndex s = - 1 \<and> elapsed s = 0"
    and "phase s \<noteq> Idle \<Longrightarrow>
        0 \<le> activeIndex s \<and> activeIndex s < int (length storySegments) \<and>
        offsetOf (activeIndex s) \<le> now s - start s"
    and "elapsed s \<le> totalDuration"
    and "phase s = Running \<Longrightarrow> elapsed s < totalDuration"
    and "phase s = Finished \<Longrightarrow> elapsed s = totalDuration"
    and "late \<Longrightarrow> 0 \<le> elapsed s"
    and "phase s \<noteq> Running \<Longrightarrow> timeouts s = [] \<and> frames s = []"
  using assms by (simp_all add: sound_def)

lemma sound_timeout:
  assumes "sound late s" and "t \<in> set (timeouts s)"
  shows "phase s = Running \<and> t_id t \<in> set (revealTimeouts s) \<and> t_run t = runKey s \<and>
         1 \<le> t_index t \<and> t_index t < 5 \<and> t_due t = start s + offsetOf (t_index t)"
proof (cases "phase s = Running")
  case True
  from assms(1) have "\<forall>t \<in> set (timeouts s).
        t_id t \<in> set (revealTimeouts s) \<and> t_run t = runKey s \<and>
        1 \<le> t_index t \<and> t_index t < int (length storySegments) \<and>
        t_due t = start s + offsetOf (t_index t)"
    by (simp add: sound_def)
  with assms(2) True show ?thesis
    by (simp add: length_storySegments)
next
  case False
  with assms(1) have "timeouts s = []"
    by (simp add: sound_def)
  with assms(2) show ?thesis by simp
qed

lemma sound_frame:
  assumes "sound late s" and "f \<in> set (frames s)"
  shows "phase s = Running \<and> f_id f = animationFrameId s \<and> f_run f = runKey s \<and>
         f_start f = start s"
proof (cases "phase s = Running")
  case True
  from assms(1) have "\<forall>f \<in> set (frames s).
        f_id f = animationFrameId s \<and> f_run f = runKey s \<and> f_start f = start s"
    by (simp add: sound_def)
  with assms(2) True show ?thesis
    by simp
next
  case False
  with assms(1) have "frames s = []"
    by (simp add: sound_def)
  with assms(2) show ?thesis by simp
qed

lemma sound_pending_cleared:
  assumes "sound late s"
  shows "filter (\<lambda>t. t_id t \<notin> set (revealTimeouts s)) (timeouts s) = []"
    and "filter (\<lambda>f. f_id f \<noteq> animationFrameId s) (frames s) = []"
    and "\<not> hasCleanup s \<Longrightarrow> timeouts s = [] \<and> frames s = []"
  using assms by (simp_all add: sound_def filter_empty_conv)

lemma cleanup_sound:
  assumes "sound late s"
  shows "cleanup s = s\<lparr>timeouts := [], frames := []\<rparr>"
  by (simp add: cleanup_eq sound_pending_cleared [OF assms])

text \<open>What each step does in a state that satisfies the invariant.\<close>

lemma commit_handleStart:
  assumes "sound late s"
  shows "commit (handleStart s) =
    s\<lparr>activeIndex := 0, elapsed := 0, phase := Running, runKey := runKey s + 1,
      deps := (Running, runKey s + 1),
      nextTimeoutId := nextTimeoutId s + 4,
      timeouts :=
        [\<lparr>t_id = nextTimeoutId s, t_due = now s + 5000, t_index = 1, t_run = runKey s + 1\<rparr>,
         \<lparr>t_id = nextTimeoutId s + 1, t_due = now s + 10000, t_index = 2,
           t_run = runKey s + 1\<rparr>,
         \<lparr>t_id = nextTimeoutId s + 2, t_due = now s + 15000, t_index = 3,
           t_run = runKey s + 1\<rparr>,
         \<lparr>t_id = nextTimeoutId s + 3, t_due = now s + 20000, t_index = 4,
           t_run = runKey s + 1\<rparr>],
      nextFrameId := nextFrameId s + 1,
      frames := [\<lparr>f_id = nextFrameId s, f_start = now s, f_run = runKey s + 1\<rparr>],
      hasCleanup := True,
      revealTimeouts :=
        [nextTimeoutId s, nextTimeoutId s + 1, nextTimeoutId s + 2, nextTimeoutId s + 3],
      animationFrameId := nextFrameId s,
      start := now s\<rparr>"
proof -
  have d: "deps s = (phase s, runKey s)"
    using assms by (simp add: sound_def)
  show ?thesis
    using sound_pending_cleared [OF assms]
    by (simp add: commit_def handleStart_def d cleanup_eq effect_running)
qed

lemma step_Timeout_eq:
  assumes "sound late s" and "find (\<lambda>t. t_id t = h) (timeouts s) = Some t"
  shows "step (Timeout h) s =
      s\<lparr>timeouts := filter (\<lambda>u. t_id u \<noteq> t_id t) (timeouts s), activeIndex := t_index t\<rparr>"
  using assms(2) sound_deps [OF assms(1)]
  by (simp add: fireTimeout_def commit_def revealCallback_def clearTimeout_def)

lemma step_Frame_running:
  assumes "sound late s" and "find (\<lambda>f. f_id f = h) (frames s) = Some f"
    and "time - start s < totalDuration"
  shows "step (Frame h time) s =
        s\<lparr>frames := [\<lparr>f_id = nextFrameId s, f_start = start s, f_run = runKey s\<rparr>],
          elapsed := time - start s, nextFrameId := nextFrameId s + 1,
          animationFrameId := nextFrameId s\<rparr>"
proof -
  have fm: "f \<in> set (frames s)"
    using find_id_member [OF assms(2)] by simp
  note ff = sound_frame [OF assms(1) fm]
  have none: "filter (\<lambda>g. f_id g \<noteq> animationFrameId s) (frames s) = []"
    by (rule sound_pending_cleared(2) [OF assms(1)])
  show ?thesis
    using assms(3) sound_deps [OF assms(1)] ff
    by (simp add: assms(2) fireFrame_def loop_def cancelAnimationFrame_def none
        requestAnimationFrame_def Let_def commit_def min_def)
qed

lemma step_Frame_finished:
  assumes "sound late s" and "find (\<lambda>f. f_id f = h) (frames s) = Some f"
    and "\<not> time - start s < totalDuration"
  shows "step (Frame h time) s =
        s\<lparr>frames := [], timeouts := [], elapsed := totalDuration, phase := Finished,
          deps := (Finished, runKey s), hasCleanup := False\<rparr>"
proof -
  have fm: "f \<in> set (frames s)"
    using find_id_member [OF assms(2)] by simp
  note ff = sound_frame [OF assms(1) fm]
  have none: "filter (\<lambda>g. f_id g \<noteq> animationFrameId s) (frames s) = []"
    by (rule sound_pending_cleared(2) [OF assms(1)])
  show ?thesis
    using assms(3) sound_deps [OF assms(1)] ff sound_pending_cleared(1) [OF assms(1)]
    by (simp add: assms(2) fireFrame_def loop_def cancelAnimationFrame_def none
        Let_def commit_def min_def cleanup_eq effect_idle)
qed

text \<open>The invariant holds initially and every enabled step keeps it.\<close>

lemma sound_init: "sound late init"
  by (simp add: sound_def init_def totalDuration_value)

lemma sound_Start:
  assumes "sound late s"
  shows "sound late (step Start s)"
  by (simp add: commit_handleStart [OF assms])
     (simp add: sound_def totalDuration_value offsetOf_values length_storySegments)

lemma sound_Tick:
  assumes "sound late s" and "0 \<le> d"
  shows "sound late (step (Tick d) s)"
  using assms by (simp add: sound_def) linarith

lemma sound_Timeout:
  assumes "sound late s" and "enabled late s (Timeout h)"
  shows "sound late (step (Timeout h) s)"
proof -
  from assms(2) obtain t where f: "find (\<lambda>t. t_id t = h) (timeouts s) = Some t"
    and due: "t_due t \<le> now s"
    by (cases "find (\<lambda>t. t_id t = h) (timeouts s)") simp_all
  have t: "t \<in> set (timeouts s)"
    using find_id_member [OF f] by simp
  note tt = sound_timeout [OF assms(1) t]
  from tt due have j: "offsetOf (t_index t) \<le> now s - start s"
    by simp
  show ?thesis
    unfolding step_Timeout_eq [OF assms(1) f]
    using assms(1) tt j
    by (simp add: sound_def length_storySegments)
qed

lemma sound_Frame:
  assumes "sound late s" and "enabled late s (Frame h time)"
  shows "sound late (step (Frame h time) s)"
proof -
  from assms(2) obtain f where f: "find (\<lambda>f. f_id f = h) (frames s) = Some f"
    and lt: "late \<longrightarrow> f_start f \<le> time"
    by (cases "find (\<lambda>f. f_id f = h) (frames s)") simp_all
  have fm: "f \<in> set (frames s)"
    using find_id_member [OF f] by simp
  note ff = sound_frame [OF assms(1) fm]
  show ?thesis
  proof (cases "time - start s < totalDuration")
    case True
    show ?thesis
      unfolding step_Frame_running [OF assms(1) f True]
      using assms(1) True lt ff
      by (simp add: sound_def)
  next
    case False
    show ?thesis
      unfolding step_Frame_finished [OF assms(1) f False]
      using assms(1) ff
      by (simp add: sound_def totalDuration_value)
  qed
qed

lemma sound_step:
  assumes "sound late s" and "enabled late s e"
  shows "sound late (step e s)"
proof (cases e)
  case Start
  then show ?thesis using sound_Start [OF assms(1)] by simp
next
  case Replay
  then show ?thesis using sound_Start [OF assms(1)] by (simp only: step_Replay_eq)
next
  case (Tick d)
  then show ?thesis using sound_Tick [of late s d] assms by simp
next
  case (Timeout h)
  then show ?thesis using sound_Timeout [of late s h] assms by simp
next
  case (Frame h time)
  then show ?thesis using sound_Frame [of late s h time] assms by simp
qed

lemma sound_reaches:
  assumes "reaches late s s'" and "sound late s"
  shows "sound late s'"
  using assms by (induction rule: reaches.induct) (simp_all add: sound_step)

lemma sound_reachable: "reachable late s \<Longrightarrow> sound late s"
  unfolding reachable_def by (rule sound_reaches [OF _ sound_init])

lemma reaches_run:
  "admissible late es s \<Longrightarrow> reaches late s' s \<Longrightarrow> reaches late s' (run es s)"
  by (induction es arbitrary: s) (simp_all add: reaches.after)

lemma reachable_run: "admissible late es init \<Longrightarrow> reachable late (run es init)"
  unfolding reachable_def by (rule reaches_run) (simp_all add: reaches.here)

lemmas run_defs = init_def commit_def handleStart_def handleReplay_def effect_running
  effect_idle cleanup_eq fireTimeout_def fireFrame_def revealCallback_def clearTimeout_def
  cancelAnimationFrame_def loop_def requestAnimationFrame_def Let_def totalDuration_value

section \<open>Stale callbacks\<close>

lemma fullRun_state:
  "admissible late fullRun init \<and>
   run fullRun init =
     \<lparr>phase = Finished, runKey = 1, activeIndex = 4, elapsed = 20000,
      now = 20000, nextTimeoutId = 5, nextFrameId = 2, timeouts = [], frames = [],
      deps = (Finished, 1), hasCleanup = False, revealTimeouts = [1, 2, 3, 4],
      animationFrameId = 1, start = 0\<rparr>"
  by (simp add: fullRun_def run_defs)

lemma lateReveal_state:
  "admissible late lateReveal init \<and>
   run lateReveal init =
     \<lparr>phase = Finished, runKey = 1, activeIndex = 3, elapsed = 20000,
      now = 20000, nextTimeoutId = 5, nextFrameId = 2, timeouts = [], frames = [],
      deps = (Finished, 1), hasCleanup = False, revealTimeouts = [1, 2, 3, 4],
      animationFrameId = 1, start = 0\<rparr>"
  by (simp add: lateReveal_def run_defs)

lemma earlyStamp_state:
  "admissible False earlyStamp init \<and>
   phase (run earlyStamp init) = Running \<and> elapsed (run earlyStamp init) = - 1"
  by (simp add: earlyStamp_def run_defs)

text \<open>
  \<^bold>\<open>C1, as stated, fails.\<close> The callbacks hold no run key and test none. Take the reveal
  timeout for index 1 that the first run schedules: it is pending after \<open>start()\<close>,
  scheduled under run key 1, and no longer pending after a \<open>replay()\<close>, whose cleanup has
  cleared it. Were the host to run its callback all the same in the state after the replay,
  where the run key is 2 and the active index 0, the callback would set the active index
  to 1. Likewise the frame callback of the first run, called with the timestamp 1000 after
  a replay at clock 1000, would set the elapsed time of the new run from 0 to 1000.
\<close>

theorem stale_callback_changes_state:
  "\<lparr>t_id = 1, t_due = 5000, t_index = 1, t_run = 1\<rparr> \<in> set (timeouts (step Start init)) \<and>
   \<lparr>t_id = 1, t_due = 5000, t_index = 1, t_run = 1\<rparr>
     \<notin> set (timeouts (step Replay (step Start init))) \<and>
   runKey (step Replay (step Start init)) = 2 \<and>
   activeIndex (step Replay (step Start init)) = 0 \<and>
   activeIndex (fireTimeout \<lparr>t_id = 1, t_due = 5000, t_index = 1, t_run = 1\<rparr>
                 (step Replay (step Start init))) = 1 \<and>
   \<lparr>f_id = 1, f_start = 0, f_run = 1\<rparr> \<in> set (frames (step Start init)) \<and>
   elapsed (step Replay (step (Tick 1000) (step Start init))) = 0 \<and>
   elapsed (fireFrame \<lparr>f_id = 1, f_start = 0, f_run = 1\<rparr> 1000
              (step Replay (step (Tick 1000) (step Start init)))) = 1000"
  by (simp add: run_defs)

text \<open>
  \<^bold>\<open>C1, amended.\<close> What keeps a superseded run out of the new one is cancellation: the
  cleanup function, which React calls when the phase or the run key has changed, clears
  every pending reveal timeout and the pending frame request. So in every reachable state
  each pending callback was scheduled under the current run key, the cleanup leaves no
  callback pending, and a timeout or frame callback that fires is one of the current run: a
  reveal timeout of a superseded run never sets the active index in the new run.
\<close>

theorem pending_callbacks_current:
  assumes "reachable late s"
  shows "(\<forall>t \<in> set (timeouts s). t_run t = runKey s) \<and>
         (\<forall>f \<in> set (frames s). f_run f = runKey s) \<and>
         timeouts (cleanup s) = [] \<and> frames (cleanup s) = [] \<and>
         (\<forall>h. enabled late s (Timeout h) \<longrightarrow>
            (\<exists>t \<in> set (timeouts s). t_run t = runKey s \<and> step (Timeout h) s = fireTimeout t s)) \<and>
         (\<forall>h time. enabled late s (Frame h time) \<longrightarrow>
            (\<exists>f \<in> set (frames s). f_run f = runKey s \<and>
               step (Frame h time) s = fireFrame f time s))"
proof -
  have snd: "sound late s"
    by (rule sound_reachable [OF assms])
  have a: "\<forall>t \<in> set (timeouts s). t_run t = runKey s"
    using sound_timeout [OF snd] by simp
  have b: "\<forall>f \<in> set (frames s). f_run f = runKey s"
    using sound_frame [OF snd] by simp
  have c: "timeouts (cleanup s) = [] \<and> frames (cleanup s) = []"
    by (simp add: cleanup_sound [OF snd])
  have d: "\<exists>t \<in> set (timeouts s). t_run t = runKey s \<and> step (Timeout h) s = fireTimeout t s"
    if "enabled late s (Timeout h)" for h
  proof -
    from that obtain t where f: "find (\<lambda>t. t_id t = h) (timeouts s) = Some t"
      by (cases "find (\<lambda>t. t_id t = h) (timeouts s)") simp_all
    have t: "t \<in> set (timeouts s)"
      using find_id_member [OF f] by simp
    with a f show ?thesis
      by (intro bexI [of _ t]) simp_all
  qed
  have e: "\<exists>f \<in> set (frames s). f_run f = runKey s \<and> step (Frame h time) s = fireFrame f time s"
    if "enabled late s (Frame h time)" for h time
  proof -
    from that obtain f where f: "find (\<lambda>f. f_id f = h) (frames s) = Some f"
      by (cases "find (\<lambda>f. f_id f = h) (frames s)") simp_all
    have t: "f \<in> set (frames s)"
      using find_id_member [OF f] by simp
    with b f show ?thesis
      by (intro bexI [of _ f]) simp_all
  qed
  from a b c d e show ?thesis
    by blast
qed

theorem pending_callbacks_current_witness:
  "reachable True (step Start init) \<and>
   map t_run (timeouts (step Start init)) = [1, 1, 1, 1] \<and>
   map f_run (frames (step Start init)) = [1] \<and>
   runKey (step Start init) = 1 \<and>
   timeouts (cleanup (step Start init)) = []"
proof -
  have r: "reachable True (step Start init)"
    using reachable_run [of True "[Start]"] by simp
  from pending_callbacks_current [OF r] r show ?thesis
    by (simp add: run_defs)
qed

section \<open>The state invariant\<close>

text \<open>
  \<^bold>\<open>C2, as stated, fails\<close> in two places. The run \<open>lateReveal\<close> ends in the phase finished
  with the active index 3, not the last index 4: the frame callback that ends the run was
  called before the reveal timeout of the last segment, and the cleanup that follows the
  change of phase has cleared that timeout. And after the run \<open>earlyStamp\<close> the elapsed time
  is negative, since \<open>loop\<close> bounds \<open>time - start\<close> from above only.
\<close>

theorem finished_before_last_reveal:
  "reachable True (run lateReveal init) \<and>
   phase (run lateReveal init) = Finished \<and>
   activeIndex (run lateReveal init) = 3 \<and>
   int (length storySegments) - 1 = 4 \<and>
   timeouts (run lateReveal init) = [] \<and>
   reachable False (run earlyStamp init) \<and>
   elapsed (run earlyStamp init) < 0"
  using reachable_run [of True lateReveal] reachable_run [of False earlyStamp]
  by (simp add: lateReveal_state earlyStamp_state length_storySegments)

text \<open>
  \<^bold>\<open>C2, amended.\<close> In every reachable state: whenever the phase is not idle, the active index
  is an index of the script; the elapsed time is at most the total duration, and it is not
  negative as long as no frame callback is handed a timestamp below the start of its run;
  and in the phase finished the elapsed time is the total duration.
\<close>

theorem playback_invariant:
  assumes "reachable late s"
  shows "(phase s \<noteq> Idle \<longrightarrow> 0 \<le> activeIndex s \<and> activeIndex s < int (length storySegments)) \<and>
         elapsed s \<le> totalDuration \<and>
         (late \<longrightarrow> 0 \<le> elapsed s) \<and>
         (phase s = Finished \<longrightarrow> elapsed s = totalDuration)"
  using sound_state [OF sound_reachable [OF assms]] by simp

theorem playback_invariant_witness:
  "reachable True (run fullRun init) \<and> phase (run fullRun init) = Finished \<and>
   activeIndex (run fullRun init) = 4 \<and> elapsed (run fullRun init) = totalDuration"
proof -
  have r: "reachable True (run fullRun init)"
    using reachable_run [of True fullRun] by (simp add: fullRun_state)
  from playback_invariant [OF r] r show ?thesis
    by (simp add: fullRun_state)
qed

section \<open>The progress fraction\<close>

text \<open>
  \<^bold>\<open>C3, as stated, fails.\<close> The progress fraction is bounded from above only
  (\<open>Math.min(elapsed / totalDuration, 1)\<close>, line 92): for a negative elapsed time it is
  negative, and after the run \<open>earlyStamp\<close> the elapsed time is -1.
\<close>

theorem progress_negative:
  "progress Running (- 1) < 0 \<and>
   reachable False (run earlyStamp init) \<and>
   phase (run earlyStamp init) = Running \<and>
   elapsed (run earlyStamp init) = - 1 \<and>
   progress (phase (run earlyStamp init)) (elapsed (run earlyStamp init)) < 0"
  using reachable_run [of False earlyStamp]
  by (simp add: earlyStamp_state progress_def totalDuration_value)

text \<open>
  \<^bold>\<open>C3, amended.\<close> In every reachable state the progress fraction is at most 1, it is 0 in
  the phase idle, and it is 1 exactly in the phase finished. It is not negative as long as
  no frame callback is handed a timestamp below the start of its run; the code bounds it
  from above only.
\<close>

theorem progress_bounds:
  assumes "reachable late s"
  shows "progress (phase s) (elapsed s) \<le> 1 \<and>
         (late \<longrightarrow> 0 \<le> progress (phase s) (elapsed s)) \<and>
         (phase s = Idle \<longrightarrow> progress (phase s) (elapsed s) = 0) \<and>
         (progress (phase s) (elapsed s) = 1 \<longleftrightarrow> phase s = Finished)"
proof -
  note st = sound_state [OF sound_reachable [OF assms]]
  show ?thesis
  proof (cases "phase s")
    case Idle
    then show ?thesis by (simp add: progress_def)
  next
    case Running
    with st(4) have "elapsed s < 20000" by (simp add: totalDuration_value)
    with Running st(6) show ?thesis
      by (simp add: progress_def totalDuration_value min_def)
  next
    case Finished
    with st(5) show ?thesis
      by (simp add: progress_def totalDuration_value)
  qed
qed

theorem progress_bounds_witness:
  "reachable True (run fullRun init) \<and>
   progress (phase (run fullRun init)) (elapsed (run fullRun init)) = 1 \<and>
   phase (run fullRun init) = Finished \<and>
   reachable True init \<and> progress (phase init) (elapsed init) = 0"
proof -
  have r: "reachable True (run fullRun init)"
    using reachable_run [of True fullRun] by (simp add: fullRun_state)
  have i: "reachable True init"
    using reachable_run [of True "[]"] by simp
  from progress_bounds [OF r] progress_bounds [OF i] r i show ?thesis
    by (simp add: fullRun_state) (simp add: init_def)
qed

section \<open>Restarting a run\<close>

lemma step_keeps:
  assumes "sound late s" and "enabled late s e"
  shows "(phase (step e s) \<noteq> Idle \<or> phase s = Idle) \<and> now s \<le> now (step e s) \<and>
      (start (step e s) = start s \<or> start (step e s) = now (step e s))"
proof (cases e)
  case Start
  then show ?thesis by (simp add: commit_handleStart [OF assms(1)])
next
  case Replay
  then show ?thesis
    by (simp only: step_Replay_eq) (simp add: commit_handleStart [OF assms(1)])
next
  case (Tick d)
  then show ?thesis using assms(2) by simp
next
  case (Timeout h)
  with assms(2) obtain t where f: "find (\<lambda>t. t_id t = h) (timeouts s) = Some t"
    by (cases "find (\<lambda>t. t_id t = h) (timeouts s)") simp_all
  show ?thesis
    unfolding Timeout step_Timeout_eq [OF assms(1) f] by simp
next
  case (Frame h time)
  with assms(2) obtain f where f: "find (\<lambda>f. f_id f = h) (frames s) = Some f"
    by (cases "find (\<lambda>f. f_id f = h) (frames s)") simp_all
  show ?thesis
  proof (cases "time - start s < totalDuration")
    case True
    show ?thesis
      unfolding Frame step_Frame_running [OF assms(1) f True] by simp
  next
    case False
    show ?thesis
      unfolding Frame step_Frame_finished [OF assms(1) f False] by simp
  qed
qed

lemma after_run_start:
  assumes "reaches late r s'" and "sound late r" and "phase r \<noteq> Idle"
    and "c \<le> start r" and "start r \<le> now r"
  shows "phase s' \<noteq> Idle \<and> c \<le> start s' \<and> start s' \<le> now s'"
  using assms
proof (induction rule: reaches.induct)
  case here
  then show ?case by simp
next
  case (after s' e)
  then have ih: "phase s' \<noteq> Idle" "c \<le> start s'" "start s' \<le> now s'"
    by simp_all
  have snd: "sound late s'"
    by (rule sound_reaches [OF after.hyps(1) after.prems(1)])
  note k = step_keeps [OF snd after.hyps(2)]
  from k ih(1) have "phase (step e s') \<noteq> Idle" by simp
  moreover from k ih(2) ih(3) have "c \<le> start (step e s')" by auto
  moreover from k ih(3) have "start (step e s') \<le> now (step e s')" by auto
  ultimately show ?case by simp
qed

lemma restart_state:
  assumes "sound late s"
  shows "observable (step Replay (step Start s)) = observable (step Start s)"
    and "phase (step Replay (step Start s)) = Running"
    and "start (step Replay (step Start s)) = now (step Replay (step Start s))"
proof -
  have s1: "sound late (step Start s)"
    by (rule sound_Start [OF assms])
  have "step Replay (step Start s) = step Start (step Start s)"
    by (rule step_Replay_eq)
  also have "\<dots> = commit (handleStart (step Start s))"
    by (rule step.simps)
  finally have eq: "step Replay (step Start s) = commit (handleStart (step Start s))" .
  show "observable (step Replay (step Start s)) = observable (step Start s)"
    unfolding eq commit_handleStart [OF s1]
    by (simp add: observable_def commit_handleStart [OF assms])
  show "phase (step Replay (step Start s)) = Running"
    unfolding eq commit_handleStart [OF s1] by simp
  show "start (step Replay (step Start s)) = now (step Replay (step Start s))"
    unfolding eq commit_handleStart [OF s1] by simp
qed

text \<open>
  \<^bold>\<open>C4.\<close> \<open>start()\<close> followed at once by \<open>replay()\<close> leaves the system as a single
  \<open>start()\<close> does: up to the run key and the handles of the callbacks, the state, the
  clock and the pending callbacks with their due times are the same. Every reveal timeout
  that is pending then was scheduled by the second run, none by the first. And in every
  state that the system reaches afterwards, the offset of the active segment has elapsed
  on the clock of the current run, whose start is not before the restart: the active index
  never runs ahead of what the elapsed time of the run justifies.
\<close>

theorem restart_equivalent:
  assumes "reachable late s"
  shows "observable (step Replay (step Start s)) = observable (step Start s) \<and>
         (\<forall>t \<in> set (timeouts (step Replay (step Start s))).
            t_run t = runKey (step Replay (step Start s)) \<and> t_run t \<noteq> runKey (step Start s)) \<and>
         (\<forall>s'. reaches late (step Replay (step Start s)) s' \<longrightarrow>
            offsetOf (activeIndex s') \<le> now s' - start s' \<and>
            now (step Replay (step Start s)) \<le> start s')"
proof -
  let ?r = "step Replay (step Start s)"
  have snd: "sound late s"
    by (rule sound_reachable [OF assms])
  have s1: "sound late (step Start s)"
    by (rule sound_Start [OF snd])
  have r: "sound late ?r"
    using sound_Start [OF s1] by (simp only: step_Replay_eq)
  note rs = restart_state [OF snd]
  have key: "runKey ?r = runKey (step Start s) + 1"
    by (simp add: commit_playback handleReplay_def)
  have a: "\<forall>t \<in> set (timeouts ?r). t_run t = runKey ?r \<and> t_run t \<noteq> runKey (step Start s)"
    using sound_timeout [OF r] key by simp
  have b: "offsetOf (activeIndex s') \<le> now s' - start s' \<and> now ?r \<le> start s'"
    if "reaches late ?r s'" for s'
  proof -
    have "phase ?r \<noteq> Idle" "now ?r \<le> start ?r" "start ?r \<le> now ?r"
      using rs(2) rs(3) by simp_all
    from after_run_start [OF that r this]
    have p: "phase s' \<noteq> Idle" and c: "now ?r \<le> start s'"
      by simp_all
    from sound_state(2) [OF sound_reaches [OF that r] p] c show ?thesis
      by simp
  qed
  from rs(1) a b show ?thesis
    by blast
qed

theorem restart_equivalent_witness:
  "reachable True init \<and>
   observable (step Replay (step Start init)) = observable (step Start init) \<and>
   map t_run (timeouts (step Replay (step Start init))) = [2, 2, 2, 2] \<and>
   reaches True (step Replay (step Start init))
     (run [Tick 5000, Timeout 5] (step Replay (step Start init))) \<and>
   activeIndex (run [Tick 5000, Timeout 5] (step Replay (step Start init))) = 1 \<and>
   offsetOf 1 \<le> now (run [Tick 5000, Timeout 5] (step Replay (step Start init)))
                 - start (run [Tick 5000, Timeout 5] (step Replay (step Start init)))"
proof -
  have i: "reachable True init"
    using reachable_run [of True "[]"] by simp
  have a: "admissible True [Tick 5000, Timeout 5] (step Replay (step Start init))"
    by (simp add: run_defs)
  have r: "reaches True (step Replay (step Start init))
     (run [Tick 5000, Timeout 5] (step Replay (step Start init)))"
    by (rule reaches_run [OF a reaches.here])
  have v: "activeIndex (run [Tick 5000, Timeout 5] (step Replay (step Start init))) = 1"
    "map t_run (timeouts (step Replay (step Start init))) = [2, 2, 2, 2]"
    by (simp_all add: run_defs)
  from restart_equivalent [OF i] r have
    "observable (step Replay (step Start init)) = observable (step Start init) \<and>
     offsetOf (activeIndex (run [Tick 5000, Timeout 5] (step Replay (step Start init))))
       \<le> now (run [Tick 5000, Timeout 5] (step Replay (step Start init)))
          - start (run [Tick 5000, Timeout 5] (step Replay (step Start init)))"
    by blast
  with i r v show ?thesis
    by simp
qed

section \<open>The revealed segments\<close>

text \<open>
  \<^bold>\<open>C8.\<close> The revealed segments are a function of the active index only: the empty list
  when the index is negative, and for an index of the script the prefix of the script up to
  and including that index, which has \<open>activeIndex + 1\<close> elements, in the order of the script.
  The active index of a reachable state is always negative or an index of the script.
\<close>

theorem revealedSegments_prefix:
  "(a < 0 \<longrightarrow> revealedSegments a = []) \<and>
   (0 \<le> a \<and> a < int (length storySegments) \<longrightarrow>
      revealedSegments a = take (nat a + 1) storySegments \<and>
      length (revealedSegments a) = nat a + 1 \<and>
      (\<forall>j \<le> nat a. revealedSegments a ! j = storySegments ! j)) \<and>
   (reachable late s \<longrightarrow> activeIndex s < int (length storySegments))"
proof -
  have "activeIndex s < int (length storySegments)" if "reachable late s"
    using sound_state(1,2) [OF sound_reachable [OF that]]
    by (cases "phase s = Idle") (simp_all add: length_storySegments)
  then show ?thesis
    by (auto simp add: revealedSegments_take nat_add_distrib)
qed

theorem revealedSegments_prefix_witness:
  "revealedSegments (- 1) = [] \<and>
   (0::int) \<le> 2 \<and> 2 < int (length storySegments) \<and>
   map id_seg (revealedSegments 2) = [''sealed'', ''countdown'', ''warning''] \<and>
   length (revealedSegments 2) = 3 \<and>
   revealedSegments 2 ! 1 = storySegments ! 1 \<and>
   reachable True (run fullRun init) \<and>
   activeIndex (run fullRun init) < int (length storySegments)"
proof -
  have r: "reachable True (run fullRun init)"
    using reachable_run [of True fullRun] by (simp add: fullRun_state)
  from revealedSegments_prefix [of "- 1"] revealedSegments_prefix [of 2 True "run fullRun init"] r
  show ?thesis
    by (simp add: length_storySegments take_map[symmetric] ids_storySegments)
qed

end
